theory Spec2Isabelle
  imports Complex_Main "HOL-Library.Word"
begin

section \<open>DataBuffer: the queue of sample blocks shared by two threads\<close>

text \<open>
  \<^verbatim>\<open>template <class Element> class DataBuffer\<close> (main.cc, lines 48 to 127) holds
  \<^verbatim>\<open>size_t m_qlen\<close>, \<^verbatim>\<open>bool m_end_marked\<close> and
  \<^verbatim>\<open>queue<vector<Element>> m_queue\<close>, guarded by one mutex and one condition
  variable. Every member function takes the mutex for its whole body, so each call is one
  atomic step on the three fields; the model is that step, as a function on a record.

  A block is a list of elements, the queue a list of blocks with the front at the head.
  \<open>m_qlen\<close> is a \<open>nat\<close>: the blocks it counts are all in memory at once and
  the two element types in use (\<^verbatim>\<open>IQSample\<close>, \<^verbatim>\<open>Sample\<close>) take several bytes
  each, so their total length stays below the range of \<^verbatim>\<open>size_t\<close> and the C++
  addition cannot wrap; that the subtraction in \<open>pull\<close> never goes below zero is
  lemma \<open>front_le_qlen\<close> below.

  A member function that waits on the condition variable (\<^verbatim>\<open>while (c) m_cond.wait(lock)\<close>)
  returns \<open>None\<close> in a state where \<open>c\<close> holds: the calling thread is suspended, the
  fields are untouched, and only another thread's \<open>push\<close> or \<open>push_end\<close> can let the
  call go on. A call that returns gives \<open>Some\<close> of its result and the new state.
\<close>

record 'a DataBuffer =
  m_qlen :: nat
  m_end_marked :: bool
  m_queue :: "'a list list"

definition DataBuffer_init :: "'a DataBuffer" where
  "DataBuffer_init = \<lparr>m_qlen = 0, m_end_marked = False, m_queue = []\<rparr>"

definition push :: "'a list \<Rightarrow> 'a DataBuffer \<Rightarrow> 'a DataBuffer" where
  "push samples s =
     (if samples \<noteq> []
      then s\<lparr>m_qlen := m_qlen s + length samples, m_queue := m_queue s @ [samples]\<rparr>
      else s)"

definition push_end :: "'a DataBuffer \<Rightarrow> 'a DataBuffer" where
  "push_end s = s\<lparr>m_end_marked := True\<rparr>"

definition queued_samples :: "'a DataBuffer \<Rightarrow> nat" where
  "queued_samples s = m_qlen s"

definition pull :: "'a DataBuffer \<Rightarrow> ('a list \<times> 'a DataBuffer) option" where
  "pull s =
     (if m_queue s = [] \<and> \<not> m_end_marked s then None
      else (case m_queue s of
              [] \<Rightarrow> Some ([], s)
            | front # rest \<Rightarrow>
                Some (front, s\<lparr>m_qlen := m_qlen s - length front, m_queue := rest\<rparr>)))"

definition pull_end_reached :: "'a DataBuffer \<Rightarrow> bool" where
  "pull_end_reached s = (m_qlen s = 0 \<and> m_end_marked s)"

definition wait_buffer_fill :: "nat \<Rightarrow> 'a DataBuffer \<Rightarrow> unit option" where
  "wait_buffer_fill minfill s =
     (if m_qlen s < minfill \<and> \<not> m_end_marked s then None else Some ())"

subsection \<open>The consumer's loop and the producer's sequence of pushes\<close>

text \<open>
  Both consumers of a buffer pull blocks until the empty block comes back
  (\<^verbatim>\<open>iqsamples = source_buffer.pull(); if (iqsamples.empty()) break;\<close> at lines 488 to 490).
  \<open>pull_until_end\<close> is that loop run with no other thread active: it gives every block
  returned by \<open>pull\<close>, the closing empty one included, and the state left behind; it is
  \<open>None\<close> when a \<open>pull\<close> would wait for ever. \<open>push_all\<close> is a producer calling
  \<open>push\<close> once for each block, in order.
\<close>

function pull_until_end :: "'a DataBuffer \<Rightarrow> ('a list list \<times> 'a DataBuffer) option" where
  "pull_until_end s =
     (case pull s of
        None \<Rightarrow> None
      | Some (samples, s') \<Rightarrow>
          if samples = [] then Some ([samples], s')
          else (case pull_until_end s' of
                  None \<Rightarrow> None
                | Some (rest, t) \<Rightarrow> Some (samples # rest, t)))"
  by pat_completeness auto
termination
  by (relation "measure (\<lambda>s. length (m_queue s))")
     (auto simp: pull_def split: if_splits list.splits)

declare pull_until_end.simps [simp del]

definition push_all :: "'a list list \<Rightarrow> 'a DataBuffer \<Rightarrow> 'a DataBuffer" where
  "push_all blocks s = fold push blocks s"

subsection \<open>Arbitrary sequences of calls\<close>

text \<open>
  A history of a buffer is a list of calls of its six member functions, each atomic under
  the mutex. \<open>call\<close> gives the state after one call: the three observers leave the
  fields alone (their bodies have no assignment), and a \<open>pull\<close> that has to wait leaves
  them alone as well. \<open>states cs s\<close> lists the states passed through, from \<open>s\<close> to
  the state after the last call.
\<close>

datatype 'a buffer_call =
    Push "'a list"
  | Push_end
  | Queued_samples
  | Pull
  | Pull_end_reached
  | Wait_buffer_fill nat

fun call :: "'a buffer_call \<Rightarrow> 'a DataBuffer \<Rightarrow> 'a DataBuffer" where
  "call (Push samples) s = push samples s"
| "call Push_end s = push_end s"
| "call Queued_samples s = s"
| "call Pull s = (case pull s of None \<Rightarrow> s | Some (samples, s') \<Rightarrow> s')"
| "call Pull_end_reached s = s"
| "call (Wait_buffer_fill minfill) s = s"

fun states :: "'a buffer_call list \<Rightarrow> 'a DataBuffer \<Rightarrow> 'a DataBuffer list" where
  "states [] s = [s]"
| "states (c # cs) s = s # states cs (call c s)"

text \<open>
  \<open>pulled cs s\<close> lists what the calls of \<open>pull\<close> in the history \<open>cs\<close> return, in
  order (a \<open>pull\<close> that has to wait returns nothing yet); \<open>pushes cs\<close> lists the blocks
  handed to \<open>push\<close>; \<open>nonempty\<close> drops the empty blocks of a list.
\<close>

definition nonempty :: "'x list list \<Rightarrow> 'x list list" where
  "nonempty blocks = filter (\<lambda>samples. samples \<noteq> []) blocks"

fun pulled :: "'a buffer_call list \<Rightarrow> 'a DataBuffer \<Rightarrow> 'a list list" where
  "pulled [] s = []"
| "pulled (Pull # cs) s =
     (case pull s of None \<Rightarrow> [] | Some (samples, s') \<Rightarrow> [samples]) @ pulled cs (call Pull s)"
| "pulled (c # cs) s = pulled cs (call c s)"

fun pushes :: "'a buffer_call list \<Rightarrow> 'a list list" where
  "pushes [] = []"
| "pushes (Push samples # cs) = samples # pushes cs"
| "pushes (c # cs) = pushes cs"

text \<open>
  \<open>count_edges to xs\<close> counts the places where the list of booleans \<open>xs\<close> changes
  to the value \<open>to\<close>: with \<open>True\<close> the changes from false to true, with \<open>False\<close>
  those from true to false.
\<close>

fun count_edges :: "bool \<Rightarrow> bool list \<Rightarrow> nat" where
  "count_edges to (a # b # xs) =
     (if a \<noteq> to \<and> b = to then 1 else 0) + count_edges to (b # xs)"
| "count_edges to xs = 0"

text \<open>
  The invariant of the three fields: the count is the total length of the queued blocks,
  and no queued block is empty (\<open>push\<close> never enqueues one).
\<close>

definition consistent :: "'a DataBuffer \<Rightarrow> bool" where
  "consistent s \<longleftrightarrow>
     m_qlen s = sum_list (map length (m_queue s)) \<and> [] \<notin> set (m_queue s)"

section \<open>The output thread\<close>

text \<open>
  \<^verbatim>\<open>write_output_data\<close> (lines 170 to 195) runs in a thread of its own when output
  buffering is on. It shares two things with the rest of the program: the atomic
  \<^verbatim>\<open>stop_flag\<close>, set by the signal handler, and the output \<open>DataBuffer\<close>, filled
  by the main thread. Each access to them is one atomic step, and other threads can act
  between any two steps; so the thread is modelled as a machine with one location for
  each such access:

  \<^item> \<open>At_while\<close>: \<^verbatim>\<open>while (!stop_flag.load())\<close>, line 173;
  \<^item> \<open>At_queued_samples\<close>: \<^verbatim>\<open>if (buf->queued_samples() == 0)\<close>, line 175;
  \<^item> \<open>At_wait_buffer_fill\<close>: \<^verbatim>\<open>buf->wait_buffer_fill(buf_minfill)\<close>, line 180;
  \<^item> \<open>At_pull_end_reached\<close>: \<^verbatim>\<open>if (buf->pull_end_reached()) break\<close>, lines 183 to 186;
  \<^item> \<open>At_pull\<close>: \<^verbatim>\<open>samples = buf->pull(); output->write(samples)\<close>, lines 189 and 190;
  \<^item> \<open>Returned_on_stop\<close>: the function has returned because the loop condition was
    false;
  \<^item> \<open>Returned_at_end\<close>: the function has returned through the \<^verbatim>\<open>break\<close>.

  The audio device is touched by this thread only; \<open>written\<close> is the list of the blocks
  handed to \<^verbatim>\<open>output->write\<close>, in order. A failed write is reported on
  \<^verbatim>\<open>stderr\<close> and changes nothing else, so it is left out. A call that waits on the
  condition variable leaves the thread where it is, to try again at its next step.
\<close>

datatype location =
    At_while
  | At_queued_samples
  | At_wait_buffer_fill
  | At_pull_end_reached
  | At_pull
  | Returned_on_stop
  | Returned_at_end

record 'x output_side =
  stop_flag :: bool
  buf :: "'x DataBuffer"
  written :: "'x list list"
  pc :: location

definition output_side_init :: "'x output_side" where
  "output_side_init =
     \<lparr>stop_flag = False, buf = DataBuffer_init, written = [], pc = At_while\<rparr>"

definition write_output_data_step :: "nat \<Rightarrow> 'x output_side \<Rightarrow> 'x output_side" where
  "write_output_data_step buf_minfill s =
     (case pc s of
        At_while \<Rightarrow>
          s\<lparr>pc := (if stop_flag s then Returned_on_stop else At_queued_samples)\<rparr>
      | At_queued_samples \<Rightarrow>
          s\<lparr>pc := (if queued_samples (buf s) = 0 then At_wait_buffer_fill
                    else At_pull_end_reached)\<rparr>
      | At_wait_buffer_fill \<Rightarrow>
          (case wait_buffer_fill buf_minfill (buf s) of
             None \<Rightarrow> s
           | Some u \<Rightarrow> s\<lparr>pc := At_pull_end_reached\<rparr>)
      | At_pull_end_reached \<Rightarrow>
          s\<lparr>pc := (if pull_end_reached (buf s) then Returned_at_end else At_pull)\<rparr>
      | At_pull \<Rightarrow>
          (case pull (buf s) of
             None \<Rightarrow> s
           | Some (samples, b) \<Rightarrow>
               s\<lparr>buf := b, written := written s @ [samples], pc := At_while\<rparr>)
      | Returned_on_stop \<Rightarrow> s
      | Returned_at_end \<Rightarrow> s)"

text \<open>
  What can happen around the output buffer, one event at a time: the signal handler sets
  the stop flag (line 201), the main thread pushes a block (line 536) or marks the end
  (line 550), or the output thread takes its next step. A run of the program is a list of
  such events, in the order in which they take effect.
\<close>

datatype 'x event = Signal | Main_push "'x list" | Main_push_end | Output_thread

fun event_step :: "nat \<Rightarrow> 'x event \<Rightarrow> 'x output_side \<Rightarrow> 'x output_side" where
  "event_step buf_minfill Signal s = s\<lparr>stop_flag := True\<rparr>"
| "event_step buf_minfill (Main_push samples) s = s\<lparr>buf := push samples (buf s)\<rparr>"
| "event_step buf_minfill Main_push_end s = s\<lparr>buf := push_end (buf s)\<rparr>"
| "event_step buf_minfill Output_thread s = write_output_data_step buf_minfill s"

definition run_events :: "nat \<Rightarrow> 'x event list \<Rightarrow> 'x output_side \<Rightarrow> 'x output_side" where
  "run_events buf_minfill events s = fold (event_step buf_minfill) events s"

text \<open>
  The main thread calls \<^verbatim>\<open>output_buffer.push_end()\<close> after its loop, hence after its
  last \<^verbatim>\<open>push\<close>: \<open>pushes_before_end ended events\<close> says that \<open>events\<close> has no push
  once the end is marked (\<open>ended\<close> tells whether it is marked already). \<open>pushed\<close> lists
  the blocks the main thread pushes.
\<close>

fun pushes_before_end :: "bool \<Rightarrow> 'x event list \<Rightarrow> bool" where
  "pushes_before_end ended [] = True"
| "pushes_before_end ended (Main_push samples # events) =
     (\<not> ended \<and> pushes_before_end ended events)"
| "pushes_before_end ended (Main_push_end # events) = pushes_before_end True events"
| "pushes_before_end ended (Signal # events) = pushes_before_end ended events"
| "pushes_before_end ended (Output_thread # events) = pushes_before_end ended events"

fun pushed :: "'x event list \<Rightarrow> 'x list list" where
  "pushed [] = []"
| "pushed (Main_push samples # events) = samples # pushed events"
| "pushed (Signal # events) = pushed events"
| "pushed (Main_push_end # events) = pushed events"
| "pushed (Output_thread # events) = pushed events"

text \<open>
  The invariant of a run: the buffer is consistent; the thread has left through the loop
  condition only with the stop flag set, and through the \<^verbatim>\<open>break\<close> only with the
  buffer drained and its end marked.
\<close>

definition exits_in_order :: "'x output_side \<Rightarrow> bool" where
  "exits_in_order s \<longleftrightarrow>
     consistent (buf s) \<and>
     (pc s = Returned_on_stop \<longrightarrow> stop_flag s) \<and>
     (pc s = Returned_at_end \<longrightarrow> pull_end_reached (buf s))"

section \<open>The main thread\<close>

subsection \<open>The size of the output buffer\<close>

text \<open>
  Lines 419 to 428 of \<^verbatim>\<open>main\<close> compute \<^verbatim>\<open>unsigned int outputbuf_samples\<close> from
  \<^verbatim>\<open>double bufsecs\<close> (\<open>-1\<close> unless \<^verbatim>\<open>-b\<close> is given, and then at least 0), the
  output mode, the file name and \<^verbatim>\<open>int pcmrate\<close>. \<open>pcmrate\<close> is the 32-bit word
  held by the C++ \<^verbatim>\<open>int\<close> (read with \<open>sint\<close>), so that its conversion to
  \<^verbatim>\<open>unsigned int\<close> is the identity on the word. \<open>bufsecs\<close> is read as the real
  number the double stands for; only its sign is tested on the way to the default.
  The conversion \<^verbatim>\<open>(unsigned int)(bufsecs * pcmrate)\<close> truncates towards zero and is
  undefined in C++ when the result does not fit: \<open>double_to_uint\<close> is \<open>None\<close> there.
\<close>

datatype OutputMode = MODE_RAW | MODE_WAV | MODE_ALSA

definition double_to_uint :: "real \<Rightarrow> 32 word option" where
  "double_to_uint x =
     (let t = (if 0 \<le> x then \<lfloor>x\<rfloor> else \<lceil>x\<rceil>)
      in if 0 \<le> t \<and> t < 2 ^ 32 then Some (word_of_int t) else None)"

definition calc_outputbuf_samples ::
  "real \<Rightarrow> OutputMode \<Rightarrow> string \<Rightarrow> 32 word \<Rightarrow> 32 word option" where
  "calc_outputbuf_samples bufsecs outmode filename pcmrate =
     (if bufsecs < 0 \<and> (outmode = MODE_ALSA \<or> (outmode = MODE_RAW \<and> filename = ''-''))
      then Some pcmrate
      else if bufsecs > 0 then double_to_uint (bufsecs * real_of_int (sint pcmrate))
      else Some 0)"

text \<open>
  Lines 460 to 469: the output thread is started only if \<open>outputbuf_samples\<close> is not 0,
  with \<^verbatim>\<open>outputbuf_samples * nchannel\<close> (a product of two \<^verbatim>\<open>unsigned int\<close>) as
  its \<^verbatim>\<open>buf_minfill\<close>. \<open>None\<close>: no thread is started.
\<close>

definition output_thread_minfill :: "bool \<Rightarrow> 32 word \<Rightarrow> 32 word option" where
  "output_thread_minfill stereo outputbuf_samples =
     (if outputbuf_samples > 0
      then (let nchannel = (if stereo then 2 else 1) in Some (outputbuf_samples * nchannel))
      else None)"

subsection \<open>The main loop\<close>

text \<open>
  The loop of lines 477 to 543 uses three things that are not in \<^verbatim>\<open>main.cc\<close>: the
  decoder \<^verbatim>\<open>FmDecoder fm\<close>, the function \<^verbatim>\<open>samples_mean_rms\<close>, and the
  arithmetic of \<^verbatim>\<open>double\<close>. They are parameters of the model, collected in one
  record: \<open>'d\<close> is the state of the decoder, \<open>'iq\<close> an IQ sample, \<open>'x\<close> a
  \<^verbatim>\<open>double\<close> (\<^verbatim>\<open>Sample\<close> and the audio level are both doubles). \<open>fm_process\<close> gives
  the decoder's new state and the audio block it produces; \<open>dbl_lit\<close> is the double denoted
  by a decimal literal, \<open>dbl_add\<close> and \<open>dbl_mul\<close> are the rounded sum and product.
\<close>

record ('d, 'iq, 'x) collaborators =
  fm_process :: "'d \<Rightarrow> 'iq list \<Rightarrow> 'd \<times> 'x list"
  fm_stereo_detected :: "'d \<Rightarrow> bool"
  samples_rms :: "'x list \<Rightarrow> 'x"
  dbl_lit :: "real \<Rightarrow> 'x"
  dbl_add :: "'x \<Rightarrow> 'x \<Rightarrow> 'x"
  dbl_mul :: "'x \<Rightarrow> 'x \<Rightarrow> 'x"

text \<open>
  What the loop reads of the settings made before it: \<open>ifrate\<close>, the sample rate
  reported by the device at line 387, and \<open>outputbuf_samples\<close>. \<open>ifrate\<close> is a
  double, read as the real number it stands for; it is used in the comparison of line 481
  only, and nothing proved below depends on how that comparison rounds.
\<close>

record config =
  ifrate :: real
  outputbuf_samples :: "32 word"

text \<open>
  The variables of the loop (lines 471 to 477), the decoder, and what the loop has done
  to the outside: the lines printed on \<^verbatim>\<open>stderr\<close>, the output buffer as the pushes of
  this thread leave it, and the blocks written directly to the audio output.
  \<^verbatim>\<open>unsigned int block\<close> is a 32-bit word. A status line is recorded with its block
  number only; the levels printed with it are formatted doubles.
\<close>

datatype stderr_line = Warning_input_growing | Status "32 word" | Got_stereo | Lost_stereo

record ('d, 'x) main_state =
  fm :: 'd
  inbuf_length_warning :: bool
  audio_level :: 'x
  got_stereo :: bool
  block :: "32 word"
  stderr :: "stderr_line list"
  output_buffer :: "'x DataBuffer"
  audio_output :: "'x list list"

definition main_init :: "('d, 'iq, 'x) collaborators \<Rightarrow> 'd \<Rightarrow> ('d, 'x) main_state" where
  "main_init co decoder =
     \<lparr>fm = decoder, inbuf_length_warning = False, audio_level = dbl_lit co 0,
      got_stereo = False, block = 0, stderr = [],
      output_buffer = DataBuffer_init, audio_output = []\<rparr>"

text \<open>
  In one pass through the loop the main thread reads shared state three times: the stop
  flag in the loop condition, the length of the source buffer (line 481, skipped once the
  warning has been printed), and a block pulled from it (line 488, which waits until there
  is a block or the end is marked).
  An \<open>iteration\<close> holds the three values read in one pass; the loop is run on the list
  of them, one for each time the loop condition is evaluated. When the list ends the loop
  is still running, and the function gives the state reached so far.
\<close>

record 'iq iteration =
  stop_flag_load :: bool
  source_queued :: nat
  source_pull :: "'iq list"

text \<open>\<^verbatim>\<open>adjust_gain\<close>, lines 131 to 136; the loop bound is an \<^verbatim>\<open>unsigned int\<close>.\<close>

definition adjust_gain :: "('x \<Rightarrow> 'x \<Rightarrow> 'x) \<Rightarrow> 'x list \<Rightarrow> 'x \<Rightarrow> 'x list" where
  "adjust_gain mul samples gain =
     (let n = length samples mod 2 ^ 32
      in map (\<lambda>x. mul x gain) (take n samples) @ drop n samples)"

text \<open>Lines 479 to 485.\<close>

definition check_source_buffer ::
  "config \<Rightarrow> nat \<Rightarrow> ('d, 'x) main_state \<Rightarrow> ('d, 'x) main_state" where
  "check_source_buffer cfg queued st =
     (if \<not> inbuf_length_warning st \<and> real queued > 10 * ifrate cfg
      then st\<lparr>stderr := stderr st @ [Warning_input_growing], inbuf_length_warning := True\<rparr>
      else st)"

text \<open>Lines 492 to 500: decode, measure the level, then halve the samples.\<close>

definition decode_block ::
  "('d, 'iq, 'x) collaborators \<Rightarrow> 'iq list \<Rightarrow> ('d, 'x) main_state \<Rightarrow>
     'x list \<times> ('d, 'x) main_state" where
  "decode_block co iqsamples st =
     (case fm_process co (fm st) iqsamples of
        (decoder, audiosamples) \<Rightarrow>
          (adjust_gain (dbl_mul co) audiosamples (dbl_lit co 0.5),
           st\<lparr>fm := decoder,
              audio_level :=
                dbl_add co (dbl_mul co (dbl_lit co 0.95) (audio_level st))
                           (dbl_mul co (dbl_lit co 0.05) (samples_rms co audiosamples))\<rparr>))"

text \<open>Lines 504 to 518.\<close>

definition print_status :: "('d, 'x) main_state \<Rightarrow> ('d, 'x) main_state" where
  "print_status st = st\<lparr>stderr := stderr st @ [Status (block st)]\<rparr>"

text \<open>Lines 520 to 527.\<close>

definition check_stereo ::
  "('d, 'iq, 'x) collaborators \<Rightarrow> ('d, 'x) main_state \<Rightarrow> ('d, 'x) main_state" where
  "check_stereo co st =
     (if fm_stereo_detected co (fm st) \<noteq> got_stereo st
      then st\<lparr>got_stereo := fm_stereo_detected co (fm st),
              stderr := stderr st @
                [if fm_stereo_detected co (fm st) then Got_stereo else Lost_stereo]\<rparr>
      else st)"

text \<open>Lines 533 to 540, and the test of line 531 around them.\<close>

definition write_samples ::
  "config \<Rightarrow> 'x list \<Rightarrow> ('d, 'x) main_state \<Rightarrow> ('d, 'x) main_state" where
  "write_samples cfg audiosamples st =
     (if outputbuf_samples cfg > 0
      then st\<lparr>output_buffer := push audiosamples (output_buffer st)\<rparr>
      else st\<lparr>audio_output := audio_output st @ [audiosamples]\<rparr>)"

definition output_block ::
  "config \<Rightarrow> 'x list \<Rightarrow> ('d, 'x) main_state \<Rightarrow> ('d, 'x) main_state" where
  "output_block cfg audiosamples st =
     (if block st > 0 then write_samples cfg audiosamples st else st)"

text \<open>The body of the loop from line 492 on, closed by \<^verbatim>\<open>block++\<close>.\<close>

definition process_block ::
  "config \<Rightarrow> ('d, 'iq, 'x) collaborators \<Rightarrow> 'iq list \<Rightarrow> ('d, 'x) main_state \<Rightarrow>
     ('d, 'x) main_state" where
  "process_block cfg co iqsamples st =
     (case decode_block co iqsamples st of
        (audiosamples, decoded) \<Rightarrow>
          (output_block cfg audiosamples (check_stereo co (print_status decoded)))
            \<lparr>block := block st + 1\<rparr>)"

fun main_loop ::
  "config \<Rightarrow> ('d, 'iq, 'x) collaborators \<Rightarrow> 'iq iteration list \<Rightarrow> ('d, 'x) main_state \<Rightarrow>
     ('d, 'x) main_state" where
  "main_loop cfg co [] st = st"
| "main_loop cfg co (it # its) st =
     (if stop_flag_load it then st
      else if source_pull it = [] then check_source_buffer cfg (source_queued it) st
      else main_loop cfg co its
             (process_block cfg co (source_pull it)
                (check_source_buffer cfg (source_queued it) st)))"

subsection \<open>Reading a run of the main loop\<close>

text \<open>
  An iteration \<open>completes\<close> when the stop flag is clear and the pulled block is not
  empty: the body runs to its end and the loop goes on. The loop processes the iterations
  up to the first one that does not complete. \<open>exceeds\<close> is the comparison of line 481
  on the length read in an iteration.
\<close>

definition completes :: "'iq iteration \<Rightarrow> bool" where
  "completes it \<longleftrightarrow> \<not> stop_flag_load it \<and> source_pull it \<noteq> []"

definition exceeds :: "config \<Rightarrow> 'iq iteration \<Rightarrow> bool" where
  "exceeds cfg it \<longleftrightarrow> real (source_queued it) > 10 * ifrate cfg"

definition warnings :: "('d, 'x) main_state \<Rightarrow> nat" where
  "warnings st = count_list (stderr st) Warning_input_growing"

definition warned_once :: "('d, 'x) main_state \<Rightarrow> bool" where
  "warned_once st \<longleftrightarrow> warnings st = (if inbuf_length_warning st then 1 else 0)"

definition stereo_lines :: "('d, 'x) main_state \<Rightarrow> stderr_line list" where
  "stereo_lines st = filter (\<lambda>line. line = Got_stereo \<or> line = Lost_stereo) (stderr st)"

text \<open>
  The specification of the stereo lines, in its own words: given the value seen in the
  previous iteration and the values seen in the following ones, one line for each value
  that differs from the one before it, naming the direction, and nothing otherwise.
\<close>

fun stereo_edges :: "bool \<Rightarrow> bool list \<Rightarrow> stderr_line list" where
  "stereo_edges previous [] = []"
| "stereo_edges previous (detected # rest) =
     (if detected \<noteq> previous then [if detected then Got_stereo else Lost_stereo] else []) @
     stereo_edges detected rest"

text \<open>
  What the decoder yields on a sequence of input blocks: its stereo flag after each
  block, the audio blocks as they leave \<open>adjust_gain\<close>, and the audio level after the
  last block.
\<close>

fun detected_flags :: "('d, 'iq, 'x) collaborators \<Rightarrow> 'd \<Rightarrow> 'iq list list \<Rightarrow> bool list" where
  "detected_flags co decoder [] = []"
| "detected_flags co decoder (iqsamples # rest) =
     fm_stereo_detected co (fst (fm_process co decoder iqsamples)) #
     detected_flags co (fst (fm_process co decoder iqsamples)) rest"

fun decoded_audio ::
  "('d, 'iq, 'x) collaborators \<Rightarrow> 'd \<Rightarrow> 'iq list list \<Rightarrow> 'x list list" where
  "decoded_audio co decoder [] = []"
| "decoded_audio co decoder (iqsamples # rest) =
     adjust_gain (dbl_mul co) (snd (fm_process co decoder iqsamples)) (dbl_lit co 0.5) #
     decoded_audio co (fst (fm_process co decoder iqsamples)) rest"

fun level_after :: "('d, 'iq, 'x) collaborators \<Rightarrow> 'd \<Rightarrow> 'x \<Rightarrow> 'iq list list \<Rightarrow> 'x" where
  "level_after co decoder level [] = level"
| "level_after co decoder level (iqsamples # rest) =
     level_after co (fst (fm_process co decoder iqsamples))
       (dbl_add co (dbl_mul co (dbl_lit co 0.95) level)
          (dbl_mul co (dbl_lit co 0.05)
             (samples_rms co (snd (fm_process co decoder iqsamples)))))
       rest"

text \<open>
  The audio blocks that get past the test \<^verbatim>\<open>block > 0\<close> when the counter stands at
  \<open>blk\<close> for the first of them.
\<close>

fun forwarded :: "32 word \<Rightarrow> 'x list list \<Rightarrow> 'x list list" where
  "forwarded blk [] = []"
| "forwarded blk (audiosamples # rest) =
     (if blk > 0 then [audiosamples] else []) @ forwarded (blk + 1) rest"

subsection \<open>Collaborators for concrete runs\<close>

text \<open>
  A decoder that follows a script: its state is the list of stereo flags still to come
  and the flag it shows now; each processed block takes the next flag from the script (an
  exhausted script keeps the flag as it is) and yields a block of two samples. Its IQ samples carry nothing, and doubles are read as
  reals. \<open>busy x\<close> is an iteration
  that finds the stop flag clear, the source buffer short, and pulls the block \<open>[x]\<close>.
\<close>

definition scripted :: "(bool list \<times> bool, unit, real) collaborators" where
  "scripted =
     \<lparr>fm_process =
        (\<lambda>(script, detected) iqsamples.
           (case script of [] \<Rightarrow> ([], detected) | next_flag # rest \<Rightarrow> (rest, next_flag),
            [1, 1])),
      fm_stereo_detected = snd,
      samples_rms = (\<lambda>samples. 1),
      dbl_lit = (\<lambda>x. x), dbl_add = (+), dbl_mul = (*)\<rparr>"

definition busy :: "'iq \<Rightarrow> 'iq iteration" where
  "busy x = \<lparr>stop_flag_load = False, source_queued = 0, source_pull = [x]\<rparr>"

section \<open>Properties of DataBuffer\<close>

subsection \<open>The invariant\<close>

lemma consistent_init: "consistent DataBuffer_init"
  by (simp add: consistent_def DataBuffer_init_def)

lemma consistent_call: "consistent s \<Longrightarrow> consistent (call c s)"
  by (cases c)
     (auto simp: consistent_def push_def push_end_def pull_def split: list.splits)

lemma consistent_states: "consistent s \<Longrightarrow> t \<in> set (states cs s) \<Longrightarrow> consistent t"
proof (induction cs arbitrary: s)
  case Nil
  then show ?case by simp
next
  case (Cons c cs)
  from Cons.prems(2) have "t = s \<or> t \<in> set (states cs (call c s))" by simp
  then show ?case
    using Cons.IH [OF consistent_call [OF Cons.prems(1)]] Cons.prems(1) by blast
qed

lemma last_states_in: "last (states cs s) \<in> set (states cs s)"
  by (induction cs arbitrary: s) auto

lemma states_nonempty: "states cs s \<noteq> []"
  by (cases cs) auto

lemma hd_states: "hd (states cs s) = s"
  by (cases cs) auto

text \<open>The subtraction in \<open>pull\<close> never goes below zero.\<close>

lemma front_le_qlen:
  "consistent s \<Longrightarrow> m_queue s = front # rest \<Longrightarrow> length front \<le> m_qlen s"
  by (simp add: consistent_def)

lemma pull_drained:
  "consistent s \<Longrightarrow> m_end_marked s \<Longrightarrow> m_qlen s = 0 \<Longrightarrow> pull s = Some ([], s)"
  by (cases "m_queue s") (auto simp: consistent_def pull_def)

subsection \<open>The end flag\<close>

lemma end_marked_call: "m_end_marked s \<Longrightarrow> m_end_marked (call c s)"
  by (cases c) (auto simp: push_def push_end_def pull_def split: list.splits)

lemma end_marked_states:
  "m_end_marked s \<Longrightarrow> map m_end_marked (states cs s) = replicate (Suc (length cs)) True"
  by (induction cs arbitrary: s) (auto simp: end_marked_call)

lemma count_edges_replicate: "count_edges to (replicate n b) = 0"
proof (induction n)
  case 0
  show ?case by simp
next
  case (Suc n)
  then show ?case by (cases n) auto
qed

lemma count_edges_Cons:
  "xs \<noteq> [] \<Longrightarrow>
   count_edges to (a # xs) = (if a \<noteq> to \<and> hd xs = to then 1 else 0) + count_edges to xs"
  by (cases xs) auto

lemma edges_states:
  "count_edges True (map m_end_marked (states cs s)) \<le> 1 \<and>
   count_edges False (map m_end_marked (states cs s)) = 0"
proof (induction cs arbitrary: s)
  case Nil
  show ?case by simp
next
  case (Cons c cs)
  show ?case
  proof (cases "m_end_marked s")
    case True
    then show ?thesis
      using end_marked_states [of s "c # cs"]
        count_edges_replicate [of _ "Suc (Suc (length cs))" True]
      by simp
  next
    case False
    show ?thesis
    proof (cases "m_end_marked (call c s)")
      case True
      then have "map m_end_marked (states cs (call c s)) = replicate (Suc (length cs)) True"
        by (rule end_marked_states)
      then show ?thesis
        using False True count_edges_replicate [of _ "Suc (length cs)" True]
        by (simp add: count_edges_Cons states_nonempty hd_map hd_states)
    next
      case unmarked: False
      then show ?thesis
        using False Cons.IH [of "call c s"]
        by (simp add: count_edges_Cons states_nonempty hd_map hd_states)
    qed
  qed
qed

text \<open>
  Claim C2. Take any sequence \<open>cs\<close> of calls of \<open>push\<close>, \<open>push_end\<close>,
  \<open>queued_samples\<close>, \<open>pull\<close>, \<open>pull_end_reached\<close> and \<open>wait_buffer_fill\<close> on a
  new buffer, and let \<open>s\<close> be the state it ends in. Then \<open>m_qlen s\<close> is the sum of the
  lengths of the blocks queued in \<open>s\<close>; along the whole history \<open>m_end_marked\<close> goes
  from false to true at most once and never from true to false; and if \<open>s\<close> has the
  end marked and a count of 0, \<open>pull\<close> returns the empty block at once and leaves the
  state as it is, so that every later \<open>pull\<close> finds the same state and does the same.
\<close>

theorem buffer_invariants:
  fixes cs :: "'a buffer_call list"
  defines "s \<equiv> last (states cs DataBuffer_init)"
  shows "m_qlen s = sum_list (map length (m_queue s)) \<and>
         count_edges True (map m_end_marked (states cs DataBuffer_init)) \<le> 1 \<and>
         count_edges False (map m_end_marked (states cs DataBuffer_init)) = 0 \<and>
         (m_end_marked s \<and> m_qlen s = 0 \<longrightarrow> pull s = Some ([], s) \<and> call Pull s = s)"
proof -
  have c: "consistent s"
    unfolding s_def using consistent_states [OF consistent_init last_states_in] .
  then have "m_qlen s = sum_list (map length (m_queue s))"
    by (simp add: consistent_def)
  moreover have "m_end_marked s \<and> m_qlen s = 0 \<longrightarrow> pull s = Some ([], s) \<and> call Pull s = s"
    using pull_drained [OF c] by simp
  ultimately show ?thesis
    using edges_states [of cs DataBuffer_init] by simp
qed

theorem buffer_invariants_witness:
  "m_qlen (last (states [Push [1, 2, 3 :: nat], Pull, Push [4, 5], Push_end, Pull]
      DataBuffer_init)) = 0 \<and>
   count_edges True (map m_end_marked
     (states [Push [1, 2, 3 :: nat], Pull, Push [4, 5], Push_end, Pull] DataBuffer_init)) \<le> 1 \<and>
   pull (last (states [Push [1, 2, 3 :: nat], Pull, Push [4, 5], Push_end, Pull]
      DataBuffer_init)) =
     Some ([], \<lparr>m_qlen = 0, m_end_marked = True, m_queue = []\<rparr>)"
proof -
  let ?cs = "[Push [1, 2, 3 :: nat], Pull, Push [4, 5], Push_end, Pull]"
  have last: "last (states ?cs DataBuffer_init) =
      \<lparr>m_qlen = 0, m_end_marked = True, m_queue = []\<rparr>"
    by (simp add: DataBuffer_init_def push_def push_end_def pull_def)
  show ?thesis
    using buffer_invariants [of ?cs] unfolding last by simp
qed

subsection \<open>First in, first out\<close>

lemma push_all_nonempty:
  "\<forall>b\<in>set blocks. b \<noteq> [] \<Longrightarrow>
   push_all blocks s =
     s\<lparr>m_qlen := m_qlen s + sum_list (map length blocks), m_queue := m_queue s @ blocks\<rparr>"
  unfolding push_all_def
  by (induction blocks arbitrary: s) (auto simp: push_def)

lemma pull_until_end_closed:
  "m_end_marked s \<Longrightarrow> \<forall>b\<in>set (m_queue s). b \<noteq> [] \<Longrightarrow>
   pull_until_end s =
     Some (m_queue s @ [[]],
           s\<lparr>m_qlen := m_qlen s - sum_list (map length (m_queue s)), m_queue := []\<rparr>)"
proof (induction "m_queue s" arbitrary: s)
  case Nil
  then show ?case
    by (subst pull_until_end.simps) (simp add: pull_def)
next
  case (Cons front rest)
  let ?s' = "s\<lparr>m_qlen := m_qlen s - length front, m_queue := rest\<rparr>"
  from Cons.hyps(2) have q: "m_queue s = front # rest" by simp
  with Cons.prems have ne: "front \<noteq> []" by simp
  have p: "pull s = Some (front, ?s')"
    using q by (simp add: pull_def)
  have ih: "pull_until_end ?s' =
     Some (rest @ [[]], ?s'\<lparr>m_qlen := m_qlen ?s' - sum_list (map length rest), m_queue := []\<rparr>)"
    using Cons.hyps(1) [of ?s'] Cons.prems q by simp
  show ?case
    by (subst pull_until_end.simps) (simp add: p ne ih q)
qed

text \<open>
  Claim C1. Push any sequence of non-empty blocks into a new buffer, then call
  \<open>push_end\<close> once. Pulling until the empty block comes back never waits and returns
  exactly the pushed blocks, in the order of the pushes and with their contents, followed
  by the empty block; in the state left behind \<open>pull_end_reached\<close> is true; and the
  lengths of the returned blocks add up to the lengths of the pushed ones.
\<close>

theorem pull_returns_pushed_blocks_in_order:
  assumes "\<forall>b\<in>set blocks. b \<noteq> []"
  shows "\<exists>pulled t.
           pull_until_end (push_end (push_all blocks DataBuffer_init)) = Some (pulled, t) \<and>
           pulled = blocks @ [[]] \<and> pull_end_reached t \<and>
           sum_list (map length pulled) = sum_list (map length blocks)"
  using assms
  by (simp add: push_all_nonempty push_end_def DataBuffer_init_def pull_until_end_closed
      pull_end_reached_def)

theorem pull_returns_pushed_blocks_in_order_witness:
  "\<exists>t. pull_until_end (push_end (push_all [[1, 2, 3], [4, 5 :: nat]] DataBuffer_init)) =
          Some ([[1, 2, 3], [4, 5], []], t) \<and> pull_end_reached t"
  using pull_returns_pushed_blocks_in_order [of "[[1, 2, 3], [4, 5 :: nat]]"]
  by simp

subsection \<open>Empty pushes and the wait for a filled buffer\<close>

text \<open>
  Claim C9. Pushing an empty block is a no-op: in every state of the buffer,
  \<open>push []\<close> gives back the same state, so the running count, the end flag and the
  queued blocks are all unchanged.
\<close>

theorem push_empty_noop: "push [] s = s"
  by (simp add: push_def)

text \<open>
  Claim C7. \<open>wait_buffer_fill n\<close> returns (does not wait) whenever the running count is
  at least \<open>n\<close>, also when the end is not marked, and whenever the end is marked,
  whatever \<open>n\<close> and the count are. The third conjunct says that these are the only
  states in which it returns.
\<close>

theorem wait_buffer_fill_returns:
  "(n \<le> m_qlen s \<longrightarrow> wait_buffer_fill n s = Some ()) \<and>
   (m_end_marked s \<longrightarrow> wait_buffer_fill n s = Some ()) \<and>
   (wait_buffer_fill n s = None \<longleftrightarrow> m_qlen s < n \<and> \<not> m_end_marked s)"
  by (simp add: wait_buffer_fill_def)

theorem wait_buffer_fill_returns_witness:
  "wait_buffer_fill 3 (push [1, 2, 3 :: nat] DataBuffer_init) = Some () \<and>
   wait_buffer_fill 100 (push_end (DataBuffer_init :: nat DataBuffer)) = Some () \<and>
   wait_buffer_fill 4 (push [1, 2, 3 :: nat] DataBuffer_init) = None"
  using wait_buffer_fill_returns [of 3 "push [1, 2, 3 :: nat] DataBuffer_init"]
    wait_buffer_fill_returns [of 100 "push_end (DataBuffer_init :: nat DataBuffer)"]
    wait_buffer_fill_returns [of 4 "push [1, 2, 3 :: nat] DataBuffer_init"]
  by (simp add: push_def push_end_def DataBuffer_init_def)

subsection \<open>First in, first out, with pulls among the pushes\<close>

lemma nonempty_simps [simp]:
  "nonempty [] = []"
  "nonempty (xs @ ys) = nonempty xs @ nonempty ys"
  "nonempty (samples # xs) = (if samples = [] then nonempty xs else samples # nonempty xs)"
  by (simp_all add: nonempty_def)

lemma push_end_fields [simp]:
  "m_qlen (push_end b) = m_qlen b"
  "m_queue (push_end b) = m_queue b"
  "m_end_marked (push_end b)"
  by (simp_all add: push_end_def)

lemma push_fields [simp]:
  "m_queue (push samples b) = m_queue b @ nonempty [samples]"
  "m_end_marked (push samples b) = m_end_marked b"
  by (simp_all add: push_def)

text \<open>
  The consumer does not wait for the producer to finish: its pulls fall anywhere among the
  pushes. Whatever the order of the calls before the end is marked, the blocks pulled
  before it, followed by the blocks pulled after it until the empty block comes back, are
  the non-empty blocks pushed, in order, followed by the empty block.
\<close>

lemma open_call: "\<not> m_end_marked s \<Longrightarrow> c \<noteq> Push_end \<Longrightarrow> \<not> m_end_marked (call c s)"
  by (cases c) (auto simp: pull_def split: list.splits)

lemma pulled_call:
  assumes "consistent s" and "\<not> m_end_marked s" and "c \<noteq> Push_end"
  shows "pulled [c] s @ m_queue (call c s) = m_queue s @ nonempty (pushes [c])"
  using assms
  by (cases c) (auto simp: pull_def consistent_def split: list.splits)

lemma pulled_Cons: "pulled (c # cs) s = pulled [c] s @ pulled cs (call c s)"
  by (cases c) simp_all

lemma pushes_Cons: "pushes (c # cs) = pushes [c] @ pushes cs"
  by (cases c) simp_all

lemma last_states_Cons: "last (states (c # cs) s) = last (states cs (call c s))"
  by (simp add: states_nonempty)

lemma pulled_before_end:
  "consistent s \<Longrightarrow> \<not> m_end_marked s \<Longrightarrow> Push_end \<notin> set cs \<Longrightarrow>
   pulled cs s @ m_queue (last (states cs s)) = m_queue s @ nonempty (pushes cs) \<and>
   \<not> m_end_marked (last (states cs s))"
proof (induction cs arbitrary: s)
  case Nil
  then show ?case by simp
next
  case (Cons c cs)
  then have c: "c \<noteq> Push_end" and cs: "Push_end \<notin> set cs"
    by auto
  note ih = Cons.IH [OF consistent_call [OF Cons.prems(1)] open_call [OF Cons.prems(2) c] cs]
  have "pulled (c # cs) s @ m_queue (last (states (c # cs) s)) =
      pulled [c] s @ (pulled cs (call c s) @ m_queue (last (states cs (call c s))))"
    by (subst pulled_Cons, subst last_states_Cons) simp
  also have "\<dots> = pulled [c] s @ (m_queue (call c s) @ nonempty (pushes cs))"
    using ih by simp
  also have "\<dots> = m_queue s @ nonempty (pushes [c]) @ nonempty (pushes cs)"
    using pulled_call [OF Cons.prems(1) Cons.prems(2) c] by simp
  also have "\<dots> = m_queue s @ nonempty (pushes (c # cs))"
    by (subst (2) pushes_Cons) simp
  finally have "pulled (c # cs) s @ m_queue (last (states (c # cs) s)) =
      m_queue s @ nonempty (pushes (c # cs))" .
  moreover have "\<not> m_end_marked (last (states (c # cs) s))"
    using ih by (subst last_states_Cons) simp
  ultimately show ?case ..
qed

lemma fifo_any_interleaving:
  assumes "Push_end \<notin> set cs"
  shows "\<exists>rest t.
           pull_until_end (push_end (last (states cs DataBuffer_init))) = Some (rest, t) \<and>
           pulled cs DataBuffer_init @ rest = nonempty (pushes cs) @ [[]] \<and>
           pull_end_reached t"
proof -
  let ?s = "last (states cs DataBuffer_init)"
  have c: "consistent ?s"
    using consistent_states [OF consistent_init last_states_in] .
  have q: "pulled cs DataBuffer_init @ m_queue ?s = nonempty (pushes cs)"
    using pulled_before_end [OF consistent_init _ assms]
    by (simp add: DataBuffer_init_def)
  have "pull_until_end (push_end ?s) =
      Some (m_queue ?s @ [[]],
        (push_end ?s)\<lparr>m_qlen := m_qlen ?s - sum_list (map length (m_queue ?s)), m_queue := []\<rparr>)"
    using c pull_until_end_closed [of "push_end ?s"]
    by (auto simp: consistent_def)
  with c q show ?thesis
    by (simp add: pull_end_reached_def consistent_def)
qed

section \<open>Properties of the main thread\<close>

subsection \<open>The size of the output buffer\<close>

lemma sint_pos_uint:
  fixes p :: "32 word"
  assumes "0 < sint p"
  shows "uint p < 2 ^ 31" and "sint p = uint p"
proof -
  have s: "sint p = signed_take_bit 31 (uint p)"
    by (simp add: sint_uint)
  show small: "uint p < 2 ^ 31"
  proof (rule ccontr)
    assume "\<not> uint p < 2 ^ 31"
    then have "2 ^ 31 \<le> uint p" by simp
    then have "signed_take_bit 31 (uint p) \<le> uint p - 2 ^ Suc 31"
      by (rule signed_take_bit_int_less_eq)
    moreover have "uint p < 2 ^ 32"
      using uint_bounded [of p] by simp
    ultimately show False
      using assms s by simp
  qed
  have "(0::int) \<le> uint p" "- (2 ^ 31) \<le> (0::int)"
    by simp_all
  then have "- (2 ^ 31) \<le> uint p"
    by (rule order_trans [rotated])
  then show "sint p = uint p"
    using small s by (simp add: signed_take_bit_int_eq_self)
qed

lemma minfill_exact:
  fixes p :: "32 word"
  assumes "0 < sint p"
  shows "unat (p * (if stereo then 2 else 1)) = nat (sint p) * (if stereo then 2 else 1)"
proof -
  have "uint p < 2 ^ 31" "sint p = uint p"
    using sint_pos_uint [OF assms] by simp_all
  then have u: "unat p < 2 ^ 31" "nat (sint p) = unat p"
    by (simp_all add: unat_eq_nat_uint del: nat_uint_eq)
  then have "unat p * unat (2 :: 32 word) < 2 ^ LENGTH(32)"
    by simp
  then have "unat (p * 2) = unat p * 2"
    using unat_mult_lem [of p 2] by simp
  with u show ?thesis by simp
qed

lemma pos_word:
  fixes p :: "32 word"
  assumes "0 < sint p"
  shows "0 < p"
  using assms by (cases "p = 0") (simp_all add: word_gt_0)

text \<open>
  Claim C10. Let \<open>pcmrate\<close> be positive (line 306 rejects anything else, and the
  default is 48000) and let no buffer length be given (\<open>bufsecs < 0\<close>). If the output
  mode is ALSA, or raw output with the file name \<open>-\<close>, then \<open>outputbuf_samples\<close> is
  \<open>pcmrate\<close>, which is not 0, so the output thread is started; its minimum fill is
  exactly \<open>pcmrate\<close> times the number of channels, with no wrap-around; and the main
  loop pushes its blocks into the output buffer. If the output mode is WAV, or raw output
  to any other file name, then \<open>outputbuf_samples\<close> is 0, no thread is started, and the
  main loop writes its blocks directly to the audio output.
\<close>

theorem default_output_buffer:
  assumes "0 < sint pcmrate" and "bufsecs < 0"
  shows "(outmode = MODE_ALSA \<or> (outmode = MODE_RAW \<and> filename = ''-'') \<longrightarrow>
            (\<exists>n minfill.
               calc_outputbuf_samples bufsecs outmode filename pcmrate = Some n \<and> 0 < n \<and>
               output_thread_minfill stereo n = Some minfill \<and>
               unat n = nat (sint pcmrate) \<and>
               unat minfill = nat (sint pcmrate) * (if stereo then 2 else 1) \<and>
               write_samples \<lparr>ifrate = rate, outputbuf_samples = n\<rparr> audiosamples st =
                 st\<lparr>output_buffer := push audiosamples (output_buffer st)\<rparr>)) \<and>
         (outmode = MODE_WAV \<or> (outmode = MODE_RAW \<and> filename \<noteq> ''-'') \<longrightarrow>
            calc_outputbuf_samples bufsecs outmode filename pcmrate = Some 0 \<and>
            output_thread_minfill stereo 0 = None \<and>
            write_samples \<lparr>ifrate = rate, outputbuf_samples = 0\<rparr> audiosamples st =
              st\<lparr>audio_output := audio_output st @ [audiosamples]\<rparr>)"
  using assms pos_word [OF assms(1)] minfill_exact [OF assms(1), of stereo]
    sint_pos_uint [OF assms(1)]
  by (auto simp: calc_outputbuf_samples_def output_thread_minfill_def write_samples_def
      unat_eq_nat_uint simp del: nat_uint_eq)

theorem default_output_buffer_witness:
  "calc_outputbuf_samples (- 1) MODE_ALSA [] 48000 = Some 48000 \<and>
   output_thread_minfill True 48000 = Some 96000 \<and>
   calc_outputbuf_samples (- 1) MODE_RAW ''-'' 48000 = Some 48000 \<and>
   calc_outputbuf_samples (- 1) MODE_RAW ''out.raw'' 48000 = Some 0 \<and>
   calc_outputbuf_samples (- 1) MODE_WAV ''out.wav'' 48000 = Some 0 \<and>
   output_thread_minfill True 0 = None"
  using default_output_buffer [of 48000 "- 1" MODE_ALSA "[]" True]
    default_output_buffer [of 48000 "- 1" MODE_RAW "''-''" True]
    default_output_buffer [of 48000 "- 1" MODE_RAW "''out.raw''" True]
    default_output_buffer [of 48000 "- 1" MODE_WAV "''out.wav''" True]
  by (simp add: calc_outputbuf_samples_def output_thread_minfill_def)

subsection \<open>One pass through the loop\<close>

lemmas process_block_defs =
  process_block_def decode_block_def print_status_def check_stereo_def output_block_def
  write_samples_def case_prod_beta

lemma stderr_process_block:
  "stderr (process_block cfg co iqsamples st) =
     stderr st @ [Status (block st)] @
     stereo_edges (got_stereo st) [fm_stereo_detected co (fst (fm_process co (fm st) iqsamples))]"
  by (simp add: process_block_defs)

lemma fm_process_block:
  "fm (process_block cfg co iqsamples st) = fst (fm_process co (fm st) iqsamples)"
  by (simp add: process_block_defs)

lemma got_stereo_process_block:
  "got_stereo (process_block cfg co iqsamples st) =
     fm_stereo_detected co (fst (fm_process co (fm st) iqsamples))"
  by (auto simp: process_block_defs)

lemma warning_flag_process_block:
  "inbuf_length_warning (process_block cfg co iqsamples st) = inbuf_length_warning st"
  by (simp add: process_block_defs)

lemma block_process_block:
  "block (process_block cfg co iqsamples st) = block st + 1"
  by (simp add: process_block_defs)

lemma check_source_buffer_fields:
  "fm (check_source_buffer cfg queued st) = fm st"
  "got_stereo (check_source_buffer cfg queued st) = got_stereo st"
  "block (check_source_buffer cfg queued st) = block st"
  "audio_output (check_source_buffer cfg queued st) = audio_output st"
  "output_buffer (check_source_buffer cfg queued st) = output_buffer st"
  "audio_level (check_source_buffer cfg queued st) = audio_level st"
  by (simp_all add: check_source_buffer_def)

lemma stereo_lines_check:
  "stereo_lines (check_source_buffer cfg queued st) = stereo_lines st"
  by (simp add: check_source_buffer_def stereo_lines_def)

lemma stereo_lines_process_block:
  "stereo_lines (process_block cfg co iqsamples st) =
     stereo_lines st @
     stereo_edges (got_stereo st) [fm_stereo_detected co (fst (fm_process co (fm st) iqsamples))]"
  by (simp add: stereo_lines_def stderr_process_block)

lemma stereo_edges_append:
  "stereo_edges previous (xs @ ys) =
     stereo_edges previous xs @ stereo_edges (last (previous # xs)) ys"
  by (induction xs arbitrary: previous) auto

lemma stereo_lines_main_loop:
  "stereo_lines (main_loop cfg co its st) =
     stereo_lines st @
     stereo_edges (got_stereo st)
       (detected_flags co (fm st) (map source_pull (takeWhile completes its)))"
proof (induction its arbitrary: st)
  case Nil
  show ?case by simp
next
  case (Cons it its)
  show ?case
  proof (cases "completes it")
    case True
    let ?st = "process_block cfg co (source_pull it) (check_source_buffer cfg (source_queued it) st)"
    have "stereo_lines (main_loop cfg co (it # its) st) = stereo_lines (main_loop cfg co its ?st)"
      using True by (simp add: completes_def)
    also have "\<dots> = stereo_lines ?st @
        stereo_edges (got_stereo ?st)
          (detected_flags co (fm ?st) (map source_pull (takeWhile completes its)))"
      by (rule Cons.IH)
    finally show ?thesis
      using True
      by (simp add: stereo_lines_process_block stereo_lines_check got_stereo_process_block
          fm_process_block check_source_buffer_fields)
  next
    case False
    then show ?thesis
      by (auto simp: completes_def stereo_lines_check)
  qed
qed

subsection \<open>The stereo lines\<close>

text \<open>
  Claim C6, as the code has it. From any state of the loop, the stereo lines added by a run
  are those of the specification: one line for each processed block after which the
  decoder's stereo flag differs from the value remembered from the block before, naming
  the direction, and none for a block that leaves it unchanged. A new loop remembers
  \<open>False\<close>. So when the flag reads true, false, true after the first three blocks, the
  loop prints three lines: got, lost, got. It prints the two lines lost, got on such
  blocks only when it already remembers \<open>True\<close> before them.
\<close>

theorem stereo_edge_lines:
  "stereo_lines (main_loop cfg co its st) =
     stereo_lines st @
     stereo_edges (got_stereo st)
       (detected_flags co (fm st) (map source_pull (takeWhile completes its))) \<and>
   stereo_lines (main_loop cfg co its (main_init co decoder)) =
     stereo_edges False
       (detected_flags co decoder (map source_pull (takeWhile completes its))) \<and>
   (detected_flags co decoder (map source_pull (takeWhile completes its)) =
      [True, False, True] \<longrightarrow>
    stereo_lines (main_loop cfg co its (main_init co decoder)) =
      [Got_stereo, Lost_stereo, Got_stereo]) \<and>
   (got_stereo st \<and> stereo_lines st = [] \<and>
    detected_flags co (fm st) (map source_pull (takeWhile completes its)) =
      [True, False, True] \<longrightarrow>
    stereo_lines (main_loop cfg co its st) = [Lost_stereo, Got_stereo])"
proof -
  have fresh: "stereo_lines (main_init co decoder) = []" "\<not> got_stereo (main_init co decoder)"
    "fm (main_init co decoder) = decoder"
    by (simp_all add: main_init_def stereo_lines_def)
  show ?thesis
    using stereo_lines_main_loop [of cfg co its st]
      stereo_lines_main_loop [of cfg co its "main_init co decoder"] fresh
    by auto
qed

theorem stereo_edge_lines_witness:
  "stereo_lines (main_loop \<lparr>ifrate = 1000000, outputbuf_samples = 0\<rparr> scripted
      [busy (), busy (), busy (), busy ()]
      (main_init scripted ([True, True, False, False], False))) = [Got_stereo, Lost_stereo]"
  using stereo_edge_lines [where cfg = "\<lparr>ifrate = 1000000, outputbuf_samples = 0\<rparr>"
      and co = scripted and its = "[busy (), busy (), busy (), busy ()]"
      and decoder = "([True, True, False, False], False)", THEN conjunct2, THEN conjunct1]
  by (simp add: scripted_def busy_def completes_def)

text \<open>
  The claim as the specification states it promises two lines for the sequence true, false,
  true across three iterations. A decoder scripted to show exactly these flags after the
  first three blocks makes a new loop print three.
\<close>

theorem three_stereo_lines_for_true_false_true:
  "detected_flags scripted ([True, False, True], False) [[()], [()], [()]] =
     [True, False, True] \<and>
   stereo_lines (main_loop \<lparr>ifrate = 1000000, outputbuf_samples = 0\<rparr> scripted
      [busy (), busy (), busy ()] (main_init scripted ([True, False, True], False))) =
     [Got_stereo, Lost_stereo, Got_stereo] \<and>
   length (stereo_lines (main_loop \<lparr>ifrate = 1000000, outputbuf_samples = 0\<rparr> scripted
      [busy (), busy (), busy ()] (main_init scripted ([True, False, True], False)))) \<noteq> 2"
  by (simp add: scripted_def busy_def main_init_def process_block_defs
      check_source_buffer_def adjust_gain_def stereo_lines_def)

subsection \<open>The warning about the input buffer\<close>

lemma warnings_process_block:
  "warnings (process_block cfg co iqsamples st) = warnings st"
  by (simp add: warnings_def stderr_process_block)

lemma warnings_check:
  "warnings (check_source_buffer cfg queued st) =
     warnings st + (if \<not> inbuf_length_warning st \<and> real queued > 10 * ifrate cfg then 1 else 0)"
  by (simp add: warnings_def check_source_buffer_def)

lemma warning_flag_check:
  "inbuf_length_warning (check_source_buffer cfg queued st) \<longleftrightarrow>
     inbuf_length_warning st \<or> real queued > 10 * ifrate cfg"
  by (simp add: check_source_buffer_def)

lemma warned_once_step:
  "warned_once st \<Longrightarrow> warned_once (check_source_buffer cfg queued st)"
  "warned_once st \<Longrightarrow> warned_once (process_block cfg co iqsamples st)"
  by (simp_all add: warned_once_def warnings_check warning_flag_check warnings_process_block
      warning_flag_process_block)

lemma warned_once_main_loop:
  "warned_once st \<Longrightarrow> warned_once (main_loop cfg co its st)"
  by (induction its arbitrary: st) (simp_all add: warned_once_step)

lemma warning_flag_main_loop:
  "inbuf_length_warning st \<Longrightarrow> inbuf_length_warning (main_loop cfg co its st)"
  by (induction its arbitrary: st)
     (simp_all add: warning_flag_check warning_flag_process_block)

lemma main_loop_append:
  "\<forall>it\<in>set its. completes it \<Longrightarrow>
   main_loop cfg co (its @ later) st = main_loop cfg co later (main_loop cfg co its st)"
  by (induction its arbitrary: st) (simp_all add: completes_def)

lemma no_warning_below:
  "\<forall>it\<in>set its. \<not> exceeds cfg it \<Longrightarrow> \<not> inbuf_length_warning st \<Longrightarrow>
   \<not> inbuf_length_warning (main_loop cfg co its st)"
  by (induction its arbitrary: st)
     (simp_all add: warning_flag_check warning_flag_process_block exceeds_def)

lemma warned_once_init: "warned_once (main_init co decoder)"
  by (simp add: warned_once_def warnings_def main_init_def)

text \<open>
  Claim C8. In every run of the main loop from its start, the warning about the growing
  input buffer is printed at most once. It is not printed at all if the length read never
  exceeds ten times \<open>ifrate\<close>. If the iterations \<open>before\<close> all complete without
  exceeding it and the next iteration \<open>it\<close> finds the stop flag clear and the length
  above it, then no warning is printed during \<open>before\<close>, one is printed in \<open>it\<close>,
  and the count is still one after any further iterations \<open>later\<close>, whatever lengths
  they read.
\<close>

theorem input_warning_once:
  fixes cfg :: config and co :: "('d, 'iq, 'x) collaborators" and decoder :: 'd
  defines "run \<equiv> \<lambda>its. main_loop cfg co its (main_init co decoder)"
  shows "warnings (run its) \<le> 1 \<and>
         ((\<forall>it\<in>set its. \<not> exceeds cfg it) \<longrightarrow> warnings (run its) = 0) \<and>
         ((\<forall>it\<in>set before. completes it \<and> \<not> exceeds cfg it) \<and>
          \<not> stop_flag_load it \<and> exceeds cfg it \<longrightarrow>
            warnings (run before) = 0 \<and> warnings (run (before @ [it])) = 1 \<and>
            warnings (run (before @ it # later)) = 1)"
proof -
  have once: "warned_once (run xs)" for xs
    unfolding run_def by (rule warned_once_main_loop [OF warned_once_init])
  have fresh: "\<not> inbuf_length_warning (main_init co decoder)"
    by (simp add: main_init_def)
  have a: "warnings (run its) \<le> 1"
    using once [of its] by (simp add: warned_once_def)
  have b: "warnings (run xs) = 0" if "\<forall>it\<in>set xs. \<not> exceeds cfg it" for xs
    using once [of xs] no_warning_below [OF that fresh, of co]
    by (simp add: warned_once_def run_def)
  have c: "warnings (run (before @ it # later)) = 1"
    if pre: "\<forall>it\<in>set before. completes it \<and> \<not> exceeds cfg it"
      and it: "\<not> stop_flag_load it" "exceeds cfg it" for later
  proof -
    let ?st = "run before"
    have split: "run (before @ it # later) = main_loop cfg co (it # later) ?st"
      unfolding run_def using pre by (simp add: main_loop_append)
    have "inbuf_length_warning (check_source_buffer cfg (source_queued it) ?st)"
      using it by (simp add: warning_flag_check exceeds_def)
    then have "inbuf_length_warning (main_loop cfg co (it # later) ?st)"
      using it(1)
      by (simp add: warning_flag_main_loop warning_flag_process_block)
    then show ?thesis
      using once [of "before @ it # later"] by (simp add: split warned_once_def)
  qed
  show ?thesis
    using a b [of its] b [of before] c [of "[]"] c [of later] by auto
qed

theorem input_warning_once_witness:
  "warnings (main_loop \<lparr>ifrate = 1, outputbuf_samples = 0\<rparr> scripted
      [\<lparr>stop_flag_load = False, source_queued = 5, source_pull = [()]\<rparr>]
      (main_init scripted ([], False))) = 0 \<and>
   warnings (main_loop \<lparr>ifrate = 1, outputbuf_samples = 0\<rparr> scripted
      ([\<lparr>stop_flag_load = False, source_queued = 5, source_pull = [()]\<rparr>] @
       \<lparr>stop_flag_load = False, source_queued = 11, source_pull = [()]\<rparr> #
       [\<lparr>stop_flag_load = False, source_queued = 12, source_pull = [()]\<rparr>,
        \<lparr>stop_flag_load = False, source_queued = 3, source_pull = [()]\<rparr>,
        \<lparr>stop_flag_load = False, source_queued = 40, source_pull = [()]\<rparr>])
      (main_init scripted ([], False))) = 1"
  using input_warning_once [where cfg = "\<lparr>ifrate = 1, outputbuf_samples = 0\<rparr>"
      and co = scripted and decoder = "([], False)"
      and before = "[\<lparr>stop_flag_load = False, source_queued = 5, source_pull = [()]\<rparr>]"
      and it = "\<lparr>stop_flag_load = False, source_queued = 11, source_pull = [()]\<rparr>"
      and later = "[\<lparr>stop_flag_load = False, source_queued = 12, source_pull = [()]\<rparr>,
        \<lparr>stop_flag_load = False, source_queued = 3, source_pull = [()]\<rparr>,
        \<lparr>stop_flag_load = False, source_queued = 40, source_pull = [()]\<rparr>]",
      THEN conjunct2, THEN conjunct2]
  by (simp add: completes_def exceeds_def)

subsection \<open>The audio level\<close>

text \<open>
  The level after a run is the recurrence of line 498 folded over the processed blocks,
  from the level at the start, and it is fed with \<^verbatim>\<open>samples_mean_rms\<close> of the block
  as the decoder gave it, before \<open>adjust_gain\<close>. Its value is a matter of
  \<^verbatim>\<open>double\<close> arithmetic, which stays a parameter here.
\<close>

lemma audio_level_process_block:
  "audio_level (process_block cfg co iqsamples st) =
     level_after co (fm st) (audio_level st) [iqsamples]"
  by (simp add: process_block_defs)

lemma audio_level_main_loop:
  "audio_level (main_loop cfg co its st) =
     level_after co (fm st) (audio_level st) (map source_pull (takeWhile completes its))"
proof (induction its arbitrary: st)
  case Nil
  show ?case by simp
next
  case (Cons it its)
  show ?case
  proof (cases "completes it")
    case True
    then show ?thesis
      using Cons.IH [of "process_block cfg co (source_pull it)
        (check_source_buffer cfg (source_queued it) st)"]
      by (simp add: completes_def audio_level_process_block fm_process_block
          check_source_buffer_fields)
  next
    case False
    then show ?thesis
      by (auto simp: completes_def check_source_buffer_fields)
  qed
qed

subsection \<open>The first block\<close>

lemma block_main_loop:
  "\<forall>it\<in>set its. completes it \<Longrightarrow>
   block (main_loop cfg co its st) = block st + of_nat (length its)"
  by (induction its arbitrary: st)
     (simp_all add: completes_def block_process_block check_source_buffer_fields)

lemma audio_output_process_block:
  "audio_output (process_block cfg co iqsamples st) =
     audio_output st @
     (if outputbuf_samples cfg > 0 then []
      else forwarded (block st)
             [adjust_gain (dbl_mul co) (snd (fm_process co (fm st) iqsamples)) (dbl_lit co 0.5)])"
  by (simp add: process_block_defs)

lemma output_buffer_process_block:
  "output_buffer (process_block cfg co iqsamples st) =
     (if outputbuf_samples cfg > 0
      then push_all (forwarded (block st)
             [adjust_gain (dbl_mul co) (snd (fm_process co (fm st) iqsamples)) (dbl_lit co 0.5)])
             (output_buffer st)
      else output_buffer st)"
  by (simp add: process_block_defs push_all_def)

lemma push_all_append: "push_all (xs @ ys) s = push_all ys (push_all xs s)"
  by (simp add: push_all_def)

lemma audio_output_main_loop:
  "audio_output (main_loop cfg co its st) =
     audio_output st @
     (if outputbuf_samples cfg > 0 then []
      else forwarded (block st)
             (decoded_audio co (fm st) (map source_pull (takeWhile completes its))))"
proof (induction its arbitrary: st)
  case Nil
  show ?case by simp
next
  case (Cons it its)
  let ?st = "process_block cfg co (source_pull it) (check_source_buffer cfg (source_queued it) st)"
  show ?case
  proof (cases "completes it")
    case True
    then have "audio_output (main_loop cfg co (it # its) st) = audio_output (main_loop cfg co its ?st)"
      by (simp add: completes_def)
    then show ?thesis
      using True Cons.IH [of ?st]
      by (simp add: audio_output_process_block fm_process_block block_process_block
          check_source_buffer_fields)
  next
    case False
    then show ?thesis
      by (auto simp: completes_def check_source_buffer_fields)
  qed
qed

lemma output_buffer_main_loop:
  "output_buffer (main_loop cfg co its st) =
     (if outputbuf_samples cfg > 0
      then push_all (forwarded (block st)
             (decoded_audio co (fm st) (map source_pull (takeWhile completes its))))
             (output_buffer st)
      else output_buffer st)"
proof (induction its arbitrary: st)
  case Nil
  show ?case by (simp add: push_all_def)
next
  case (Cons it its)
  let ?st = "process_block cfg co (source_pull it) (check_source_buffer cfg (source_queued it) st)"
  show ?case
  proof (cases "completes it")
    case True
    then have "output_buffer (main_loop cfg co (it # its) st) = output_buffer (main_loop cfg co its ?st)"
      by (simp add: completes_def)
    then show ?thesis
      using True Cons.IH [of ?st]
      by (simp add: output_buffer_process_block fm_process_block block_process_block
          check_source_buffer_fields push_all_def)
  next
    case False
    then show ?thesis
      by (auto simp: completes_def check_source_buffer_fields push_all_def)
  qed
qed

lemma forwarded_below_wrap:
  "0 < blk \<Longrightarrow> unat blk + length blocks \<le> 2 ^ 32 \<Longrightarrow> forwarded blk blocks = blocks"
proof (induction blocks arbitrary: blk)
  case Nil
  show ?case by simp
next
  case (Cons a blocks)
  show ?case
  proof (cases blocks)
    case Nil
    with Cons.prems show ?thesis by simp
  next
    case (Cons b bs)
    with Cons.prems have "unat blk + 1 < 2 ^ 32" by simp
    then have u: "unat (blk + 1) = unat blk + 1"
      by (simp add: unat_add_lem [THEN iffD1])
    then have "blk + 1 \<noteq> 0"
      by (metis Suc_eq_plus1 nat.simps(3) unat_0)
    then have "0 < blk + 1"
      by (simp add: word_gt_0)
    with Cons.prems Cons.IH [of "blk + 1"] u show ?thesis by simp
  qed
qed

lemma forwarded_first_run:
  "length blocks \<le> 2 ^ 32 \<Longrightarrow> forwarded 0 blocks = tl blocks"
  by (cases blocks) (simp_all add: forwarded_below_wrap)

lemma of_nat_2_32: "(of_nat (2 ^ 32) :: 32 word) = 0"
  by simp

text \<open>
  As long as the counter has not wrapped, that is for the first \<open>2 ^ 32\<close> blocks, the
  loop drops the first audio block and hands on every later one: to the audio output, or
  to the output buffer when buffering is on. Fed a single block and then stopped, by the
  stop flag or by the end of the input, it hands on nothing.
\<close>

lemma first_block_dropped_below_wrap:
  assumes "length (takeWhile completes its) \<le> 2 ^ 32"
  shows "audio_output (main_loop cfg co its (main_init co decoder)) =
           (if outputbuf_samples cfg > 0 then []
            else tl (decoded_audio co decoder (map source_pull (takeWhile completes its))))"
    and "output_buffer (main_loop cfg co its (main_init co decoder)) =
           (if outputbuf_samples cfg > 0
            then push_all (tl (decoded_audio co decoder
                   (map source_pull (takeWhile completes its)))) DataBuffer_init
            else DataBuffer_init)"
proof -
  have n: "length (decoded_audio co d blocks) = length blocks" for d blocks
    by (induction blocks arbitrary: d) simp_all
  have "forwarded 0 (decoded_audio co decoder (map source_pull (takeWhile completes its))) =
      tl (decoded_audio co decoder (map source_pull (takeWhile completes its)))"
    using assms by (intro forwarded_first_run) (simp add: n)
  then show "audio_output (main_loop cfg co its (main_init co decoder)) =
           (if outputbuf_samples cfg > 0 then []
            else tl (decoded_audio co decoder (map source_pull (takeWhile completes its))))"
    and "output_buffer (main_loop cfg co its (main_init co decoder)) =
           (if outputbuf_samples cfg > 0
            then push_all (tl (decoded_audio co decoder
                   (map source_pull (takeWhile completes its)))) DataBuffer_init
            else DataBuffer_init)"
    by (simp_all add: audio_output_main_loop output_buffer_main_loop main_init_def)
qed

lemma single_block_delivers_nothing:
  assumes "completes it" and "\<not> completes last_it"
  shows "audio_output (main_loop cfg co [it, last_it] (main_init co decoder)) = []"
    and "output_buffer (main_loop cfg co [it, last_it] (main_init co decoder)) =
           DataBuffer_init"
proof -
  have one: "takeWhile completes [it, last_it] = [it]"
    using assms by simp
  show "audio_output (main_loop cfg co [it, last_it] (main_init co decoder)) = []"
    unfolding audio_output_main_loop one by (simp add: main_init_def)
  show "output_buffer (main_loop cfg co [it, last_it] (main_init co decoder)) =
      DataBuffer_init"
    unfolding output_buffer_main_loop one by (simp add: main_init_def push_all_def)
qed

text \<open>
  Claim C4 fails on the code once the counter wraps. \<^verbatim>\<open>block\<close> is an
  \<^verbatim>\<open>unsigned int\<close>: after \<open>2 ^ 32\<close> processed blocks it is 0 again, the test
  \<^verbatim>\<open>block > 0\<close> of line 531 fails, and the next audio block, which is far from
  the first, is thrown away: neither the audio output nor the output buffer receives it.
\<close>

theorem block_counter_wraps:
  fixes cfg :: config and co :: "('d, 'iq, 'x) collaborators" and decoder :: 'd and x :: 'iq
  defines "run \<equiv> \<lambda>n. main_loop cfg co (replicate n (busy x)) (main_init co decoder)"
  shows "block (run (2 ^ 32)) = 0 \<and>
         audio_output (run (2 ^ 32 + 1)) = audio_output (run (2 ^ 32)) \<and>
         output_buffer (run (2 ^ 32 + 1)) = output_buffer (run (2 ^ 32))"
proof -
  have all: "\<forall>it\<in>set (replicate n (busy x)). completes it" for n
    by (simp add: busy_def completes_def)
  have "block (run n) = of_nat n" for n
    unfolding run_def using all [of n] block_main_loop [of "replicate n (busy x)" cfg co "main_init co decoder"]
    by (simp add: main_init_def)
  then have "block (run (2 ^ 32)) = (of_nat (2 ^ 32) :: 32 word)" .
  also have "\<dots> = 0"
    by simp
  finally have blk: "block (run (2 ^ 32)) = 0" .
  have "run (n + 1) = main_loop cfg co [busy x] (run n)" for n
    unfolding run_def using all [of n]
      main_loop_append [of "replicate n (busy x)" cfg co "[busy x]" "main_init co decoder"]
    by (simp add: replicate_append_same)
  then have "run (2 ^ 32 + 1) = main_loop cfg co [busy x] (run (2 ^ 32))" .
  then show ?thesis
    using blk
    by (simp add: busy_def audio_output_process_block output_buffer_process_block
        check_source_buffer_fields push_all_def)
qed

theorem block_counter_wraps_witness:
  "block (main_loop \<lparr>ifrate = 1000000, outputbuf_samples = 0\<rparr> scripted
      (replicate (2 ^ 32) (busy ())) (main_init scripted ([], False))) = 0 \<and>
   audio_output (main_loop \<lparr>ifrate = 1000000, outputbuf_samples = 0\<rparr> scripted
      (replicate (2 ^ 32 + 1) (busy ())) (main_init scripted ([], False))) =
   audio_output (main_loop \<lparr>ifrate = 1000000, outputbuf_samples = 0\<rparr> scripted
      (replicate (2 ^ 32) (busy ())) (main_init scripted ([], False)))"
  using block_counter_wraps [of "\<lparr>ifrate = 1000000, outputbuf_samples = 0\<rparr>" scripted
      "()" "([], False)"]
  by simp

section \<open>Properties of the output thread\<close>

lemma run_events_Cons [simp]:
  "run_events n (e # events) s = run_events n events (event_step n e s)"
  "run_events n [] s = s"
  by (simp_all add: run_events_def)

lemma consistent_push: "consistent b \<Longrightarrow> consistent (push samples b)"
  using consistent_call [of b "Push samples"] by simp

lemma consistent_push_end: "consistent b \<Longrightarrow> consistent (push_end b)"
  using consistent_call [of b Push_end] by simp

lemma consistent_pull: "consistent b \<Longrightarrow> pull b = Some (samples, b') \<Longrightarrow> consistent b'"
  using consistent_call [of b Pull] by simp

lemma pull_end_marked: "pull b = Some (samples, b') \<Longrightarrow> m_end_marked b' = m_end_marked b"
  by (auto simp: pull_def split: if_splits list.splits)

lemma pull_queue:
  "pull b = Some (samples, b') \<Longrightarrow> [] \<notin> set (m_queue b) \<Longrightarrow>
   nonempty [samples] @ m_queue b' = m_queue b"
  by (auto simp: pull_def nonempty_def split: if_splits list.splits)

lemma end_marked_event_step:
  "m_end_marked (buf (event_step n e s)) \<longleftrightarrow> m_end_marked (buf s) \<or> e = Main_push_end"
  by (cases e)
     (auto simp: write_output_data_step_def pull_end_marked
           split: location.splits option.splits)

lemma exits_in_order_step:
  assumes "exits_in_order s" and "pushes_before_end (m_end_marked (buf s)) [e]"
  shows "exits_in_order (event_step n e s)"
proof (cases e)
  case Signal
  with assms show ?thesis by (simp add: exits_in_order_def)
next
  case (Main_push samples)
  with assms show ?thesis
    by (auto simp: exits_in_order_def consistent_push pull_end_reached_def)
next
  case Main_push_end
  with assms show ?thesis
    by (auto simp: exits_in_order_def consistent_push_end pull_end_reached_def)
next
  case Output_thread
  with assms show ?thesis
    by (auto simp: exits_in_order_def write_output_data_step_def consistent_pull
             split: location.splits option.splits)
qed

lemma pushes_before_end_Cons:
  "pushes_before_end ended (e # events) \<longleftrightarrow>
     pushes_before_end ended [e] \<and> pushes_before_end (ended \<or> e = Main_push_end) events"
  by (cases e) auto

lemma exits_in_order_run:
  "exits_in_order s \<Longrightarrow> pushes_before_end (m_end_marked (buf s)) events \<Longrightarrow>
   exits_in_order (run_events n events s)"
proof (induction events arbitrary: s)
  case Nil
  then show ?case by simp
next
  case (Cons e events)
  from Cons.prems(2) have e: "pushes_before_end (m_end_marked (buf s)) [e]"
    and rest: "pushes_before_end (m_end_marked (buf (event_step n e s))) events"
    by (simp_all add: pushes_before_end_Cons [of _ e events] end_marked_event_step)
  show ?case
    using Cons.IH [OF exits_in_order_step [OF Cons.prems(1) e] rest] by simp
qed

lemma written_write_output_data_step:
  assumes "consistent (buf s)"
  shows "nonempty (written (write_output_data_step n s)) @
           m_queue (buf (write_output_data_step n s)) =
         nonempty (written s) @ m_queue (buf s)"
proof (cases "pc s = At_pull")
  case True
  show ?thesis
  proof (cases "pull (buf s)")
    case None
    with True show ?thesis by (simp add: write_output_data_step_def)
  next
    case (Some result)
    obtain samples b where result: "result = (samples, b)" by (cases result)
    have "nonempty [samples] @ m_queue b = m_queue (buf s)"
      using pull_queue [of "buf s" samples b] Some result assms by (simp add: consistent_def)
    with True Some result show ?thesis
      by (simp add: write_output_data_step_def)
  qed
next
  case False
  then show ?thesis
    by (cases "pc s") (simp_all add: write_output_data_step_def split: option.splits)
qed

lemma written_step:
  assumes "consistent (buf s)"
  shows "nonempty (written (event_step n e s)) @ m_queue (buf (event_step n e s)) =
           nonempty (written s) @ m_queue (buf s) @ nonempty (pushed [e])"
  using written_write_output_data_step [OF assms] by (cases e) simp_all

lemma consistent_event_step: "consistent (buf s) \<Longrightarrow> consistent (buf (event_step n e s))"
  by (cases e)
     (auto simp: consistent_push consistent_push_end write_output_data_step_def consistent_pull
           split: location.splits option.splits)

lemma pushed_Cons: "pushed (e # events) = pushed [e] @ pushed events"
  by (cases e) auto

lemma written_run:
  "consistent (buf s) \<Longrightarrow>
   nonempty (written (run_events n events s)) @ m_queue (buf (run_events n events s)) =
     nonempty (written s) @ m_queue (buf s) @ nonempty (pushed events)"
proof (induction events arbitrary: s)
  case Nil
  then show ?case by simp
next
  case (Cons e events)
  have "nonempty (pushed (e # events)) = nonempty (pushed [e]) @ nonempty (pushed events)"
    using pushed_Cons [of e events] by simp
  then show ?case
    using Cons.IH [OF consistent_event_step [OF Cons.prems]] written_step [OF Cons.prems]
    by simp
qed

lemma run_events_append:
  "run_events n (xs @ ys) s = run_events n ys (run_events n xs s)"
  by (simp add: run_events_def)

lemma exits_in_order_init: "exits_in_order output_side_init"
  by (simp add: exits_in_order_def output_side_init_def consistent_init)

lemma drained_queue_empty:
  "consistent b \<Longrightarrow> m_qlen b = 0 \<Longrightarrow> m_queue b = []"
  by (cases "m_queue b") (auto simp: consistent_def)

lemma four_steps:
  "replicate (4 * Suc k + 5) Output_thread =
     [Output_thread, Output_thread, Output_thread, Output_thread] @
     replicate (4 * k + 5) (Output_thread :: 'x event)"
  by (simp add: replicate_add [symmetric] del: replicate_Suc)
     (simp add: numeral_eq_Suc)

lemma drain_closed_buffer:
  assumes "consistent b" and "m_end_marked b"
  shows "run_events n (replicate (4 * length (m_queue b) + 5) Output_thread)
           \<lparr>stop_flag = False, buf = b, written = w, pc = At_while\<rparr> =
         \<lparr>stop_flag = False, buf = b\<lparr>m_qlen := 0, m_queue := []\<rparr>,
          written = w @ m_queue b, pc = Returned_at_end\<rparr>"
  using assms
proof (induction "m_queue b" arbitrary: b w)
  case Nil
  then have "m_qlen b = 0" "m_queue b = []"
    by (simp_all add: consistent_def)
  with Nil.prems show ?case
    by (simp add: numeral_eq_Suc write_output_data_step_def queued_samples_def
        wait_buffer_fill_def pull_end_reached_def)
next
  case (Cons front rest)
  let ?b = "b\<lparr>m_qlen := m_qlen b - length front, m_queue := rest\<rparr>"
  from Cons.hyps(2) have q: "m_queue b = front # rest" by simp
  with Cons.prems have front: "front \<noteq> []" "0 < m_qlen b"
    by (auto simp: consistent_def)
  have next_b: "consistent ?b" "m_end_marked ?b" "rest = m_queue ?b"
    using Cons.prems q by (auto simp: consistent_def)
  have first: "run_events n [Output_thread, Output_thread, Output_thread, Output_thread]
      \<lparr>stop_flag = False, buf = b, written = w, pc = At_while\<rparr> =
      \<lparr>stop_flag = False, buf = ?b, written = w @ [front], pc = At_while\<rparr>"
    using q front
    by (simp add: write_output_data_step_def queued_samples_def pull_end_reached_def pull_def)
  have "length (m_queue b) = Suc (length (m_queue ?b))"
    using q by simp
  then show ?case
    using Cons.hyps(1) [OF next_b(3) next_b(1) next_b(2), of "w @ [front]"] first q
    by (simp only: four_steps run_events_append) simp
qed

lemma push_all_events:
  "run_events n (map Main_push blocks) s = s\<lparr>buf := push_all blocks (buf s)\<rparr>"
  by (induction blocks arbitrary: s) (simp_all add: push_all_def)

text \<open>
  Claim C3, as the code has it. The output thread does not return only on a drained and
  closed buffer: its loop condition (line 173) reads the stop flag, and the thread returns
  as soon as it finds the flag set, whatever is still queued. For every run of events from
  the start in which the main thread pushes nothing after marking the end:

  \<^item> if the thread has returned through its loop condition, the stop flag is set;
  \<^item> if it has returned through the \<^verbatim>\<open>break\<close>, the buffer is drained and closed, and
    the non-empty blocks written to the audio output are exactly the non-empty blocks
    pushed, in order.

  For every state of the thread:

  \<^item> a step at the loop condition with the stop flag set returns, and neither pulls nor
    writes;
  \<^item> a step at \<open>pull_end_reached\<close> returns if the buffer is drained and closed, and
    goes on to pull otherwise;
  \<^item> a step at \<open>pull\<close> that does not wait removes the block \<open>pull\<close> gives, writes
    it to the audio output and goes back to the loop condition.

  And the second way out is taken, with everything delivered, when the end is marked and
  no signal comes: after the pushes of any non-empty blocks and \<open>push_end\<close>,
  \<open>4 * length blocks + 5\<close> steps of the thread write all the blocks, in order, and
  return through the \<^verbatim>\<open>break\<close>.
\<close>

theorem output_thread_exit:
  fixes n :: nat and events :: "'x event list" and t :: "'x output_side"
  defines "s \<equiv> run_events n events output_side_init"
  shows "(pushes_before_end False events \<longrightarrow>
            (pc s = Returned_on_stop \<longrightarrow> stop_flag s) \<and>
            (pc s = Returned_at_end \<longrightarrow>
               pull_end_reached (buf s) \<and> m_queue (buf s) = [] \<and>
               nonempty (written s) = nonempty (pushed events))) \<and>
         (pc t = At_while \<and> stop_flag t \<longrightarrow>
            write_output_data_step n t = t\<lparr>pc := Returned_on_stop\<rparr>) \<and>
         (pc t = At_pull_end_reached \<longrightarrow>
            write_output_data_step n t =
              t\<lparr>pc := (if pull_end_reached (buf t) then Returned_at_end else At_pull)\<rparr>) \<and>
         (pc t = At_pull \<and> pull (buf t) = Some (samples, b) \<longrightarrow>
            write_output_data_step n t =
              t\<lparr>buf := b, written := written t @ [samples], pc := At_while\<rparr>) \<and>
         ((\<forall>samples\<in>set blocks. samples \<noteq> []) \<longrightarrow>
            run_events n
              (map Main_push blocks @ [Main_push_end] @
               replicate (4 * length blocks + 5) Output_thread) output_side_init =
            \<lparr>stop_flag = False,
             buf = \<lparr>m_qlen = 0, m_end_marked = True, m_queue = []\<rparr>,
             written = blocks, pc = Returned_at_end\<rparr>)"
proof -
  have inv: "exits_in_order s" if "pushes_before_end False events"
    unfolding s_def using exits_in_order_init that
    by (intro exits_in_order_run) (simp_all add: output_side_init_def DataBuffer_init_def)
  have all: "nonempty (written s) @ m_queue (buf s) = nonempty (pushed events)"
    unfolding s_def
    using written_run [of output_side_init n events]
    by (simp add: output_side_init_def consistent_init)
       (simp add: DataBuffer_init_def)
  have exit: "(pc s = Returned_on_stop \<longrightarrow> stop_flag s) \<and>
      (pc s = Returned_at_end \<longrightarrow>
         pull_end_reached (buf s) \<and> m_queue (buf s) = [] \<and>
         nonempty (written s) = nonempty (pushed events))"
    if order: "pushes_before_end False events"
  proof -
    have "m_queue (buf s) = []" if "pc s = Returned_at_end"
      using inv [OF order] that
      by (simp add: exits_in_order_def drained_queue_empty pull_end_reached_def)
    then show ?thesis
      using inv [OF order] all by (auto simp: exits_in_order_def)
  qed
  have drain: "run_events n
      (map Main_push blocks @ [Main_push_end] @
       replicate (4 * length blocks + 5) Output_thread) output_side_init =
      \<lparr>stop_flag = False, buf = \<lparr>m_qlen = 0, m_end_marked = True, m_queue = []\<rparr>,
       written = blocks, pc = Returned_at_end\<rparr>"
    if ne: "\<forall>samples\<in>set blocks. samples \<noteq> []"
  proof -
    let ?b = "push_end (push_all blocks DataBuffer_init)"
    have b: "?b = \<lparr>m_qlen = sum_list (map length blocks), m_end_marked = True, m_queue = blocks\<rparr>"
      using ne by (simp add: push_all_nonempty push_end_def DataBuffer_init_def)
    then have "consistent ?b" "m_end_marked ?b" "m_queue ?b = blocks"
      using ne by (auto simp: consistent_def)
    then show ?thesis
      using drain_closed_buffer [of ?b n "[]"]
      by (simp add: run_events_append push_all_events output_side_init_def b)
  qed
  show ?thesis
    using exit drain
    by (auto simp: write_output_data_step_def)
qed

theorem output_thread_exit_witness:
  "run_events 4 ([Main_push [1, 2 :: nat], Main_push [3], Main_push_end] @
      replicate 13 Output_thread) output_side_init =
     \<lparr>stop_flag = False, buf = \<lparr>m_qlen = 0, m_end_marked = True, m_queue = []\<rparr>,
      written = [[1, 2], [3]], pc = Returned_at_end\<rparr> \<and>
   nonempty (written (run_events 4 ([Main_push [1, 2 :: nat], Main_push [3], Main_push_end] @
      replicate 13 Output_thread) output_side_init)) = [[1, 2], [3]] \<and>
   stop_flag (run_events 4 [Main_push [1, 2 :: nat], Signal, Output_thread] output_side_init)"
proof -
  let ?events = "[Main_push [1, 2 :: nat], Main_push [3], Main_push_end] @
      replicate 13 Output_thread"
  have drained: "run_events 4 ?events output_side_init =
     \<lparr>stop_flag = False, buf = \<lparr>m_qlen = 0, m_end_marked = True, m_queue = []\<rparr>,
      written = [[1, 2], [3]], pc = Returned_at_end\<rparr>"
    using output_thread_exit [where blocks = "[[1, 2 :: nat], [3]]" and n = 4,
        THEN conjunct2, THEN conjunct2, THEN conjunct2, THEN conjunct2]
    by simp
  have order: "pushes_before_end False ?events"
    by (simp add: numeral_eq_Suc)
  have "pushed ?events = [[1, 2], [3]]"
    by (simp add: numeral_eq_Suc)
  then have delivered: "nonempty (written (run_events 4 ?events output_side_init)) =
      [[1, 2], [3]]"
    using output_thread_exit [where events = ?events and n = 4, THEN conjunct1] order drained
    by simp
  have "pc (run_events 4 [Main_push [1, 2 :: nat], Signal, Output_thread] output_side_init) =
      Returned_on_stop"
    by (simp add: output_side_init_def write_output_data_step_def)
  then have "stop_flag (run_events 4 [Main_push [1, 2 :: nat], Signal, Output_thread]
      output_side_init)"
    using output_thread_exit [where events = "[Main_push [1, 2 :: nat], Signal, Output_thread]"
        and n = 4, THEN conjunct1]
    by simp
  with drained delivered show ?thesis by simp
qed

text \<open>
  The claim as the specification states it fails on a shutdown by signal. The main thread
  pushes two blocks; the output thread takes four steps and writes the first; the signal
  arrives, the main thread marks the end, and the output thread, back at its loop condition,
  returns. The second block is still in the buffer, which is not drained, and it is never
  written.
\<close>

theorem output_thread_leaves_queued_block:
  "pc (run_events 1
        ([Main_push [1, 2 :: nat], Main_push [3],
          Output_thread, Output_thread, Output_thread, Output_thread,
          Signal, Main_push_end, Output_thread]) output_side_init) = Returned_on_stop \<and>
   written (run_events 1
        ([Main_push [1, 2 :: nat], Main_push [3],
          Output_thread, Output_thread, Output_thread, Output_thread,
          Signal, Main_push_end, Output_thread]) output_side_init) = [[1, 2]] \<and>
   m_queue (buf (run_events 1
        ([Main_push [1, 2 :: nat], Main_push [3],
          Output_thread, Output_thread, Output_thread, Output_thread,
          Signal, Main_push_end, Output_thread]) output_side_init)) = [[3]] \<and>
   \<not> pull_end_reached (buf (run_events 1
        ([Main_push [1, 2 :: nat], Main_push [3],
          Output_thread, Output_thread, Output_thread, Output_thread,
          Signal, Main_push_end, Output_thread]) output_side_init))"
  by (simp add: output_side_init_def DataBuffer_init_def write_output_data_step_def
      queued_samples_def pull_end_reached_def pull_def push_def push_end_def)

end
